theory Spec2Isabelle
  imports Main "HOL-Library.AList" "HOL-Library.List_Lexorder" "HOL-Library.Char_ord"
begin

section \<open>JavaScript values\<close>

text \<open>
  The values that travel through messages and rows. Numbers are integers here; a function
  carries an identity (functions compare by reference). Arrays and other exotic objects
  are outside the value model: an object is a plain string-keyed property bag.
\<close>

datatype jsval =
    Undefined
  | Null
  | Bool bool
  | Num int
  | Str string
  | Obj "(string \<times> jsval) list"
  | Func nat

text \<open>The \<^verbatim>\<open>typeof\<close> operator.\<close>

fun typeof :: "jsval \<Rightarrow> string" where
  "typeof Undefined = ''undefined''"
| "typeof Null = ''object''"
| "typeof (Bool b) = ''boolean''"
| "typeof (Num n) = ''number''"
| "typeof (Str s) = ''string''"
| "typeof (Obj props) = ''object''"
| "typeof (Func f) = ''function''"

text \<open>Truthiness, as used by \<^verbatim>\<open>if (v)\<close> and \<^verbatim>\<open>!v\<close>.\<close>

fun truthy :: "jsval \<Rightarrow> bool" where
  "truthy Undefined = False"
| "truthy Null = False"
| "truthy (Bool b) = b"
| "truthy (Num n) = (n \<noteq> 0)"
| "truthy (Str s) = (s \<noteq> [])"
| "truthy (Obj props) = True"
| "truthy (Func f) = True"

text \<open>
  \<^verbatim>\<open>const isPrimitive = (v) => { if (typeof v === 'object') { return v === null }
  return typeof v !== 'function' }\<close>
\<close>

definition isPrimitive :: "jsval \<Rightarrow> bool" where
  "isPrimitive v = (if typeof v = ''object'' then v = Null else typeof v \<noteq> ''function'')"

text \<open>
  \<^verbatim>\<open>structuredClone\<close> copies a value deeply; values are immutable here, so the copy is
  the value itself. It raises a DataCloneError on a value that holds a function.
\<close>

fun cloneable :: "jsval \<Rightarrow> bool" where
  "cloneable (Func f) = False"
| "cloneable (Obj props) = list_all (\<lambda>(k, v). cloneable v) props"
| "cloneable v = True"

text \<open>
  Modelled from the spec: the deep equality \<^verbatim>\<open>dequal\<close> of the external package of the
  same name, over the closed value model. Two objects are equal when they have the same
  number of keys and every key of the first is a key of the second with a deeply equal
  value (key order does not matter); everything else compares by identity.
\<close>

fun dequal :: "jsval \<Rightarrow> jsval \<Rightarrow> bool" where
  "dequal (Obj foo) (Obj bar) =
     (list_all (\<lambda>(k, v). case map_of bar k of None \<Rightarrow> False | Some w \<Rightarrow> dequal v w) foo
      \<and> length bar = length foo)"
| "dequal foo bar = (foo = bar)"

section \<open>Plain objects\<close>

text \<open>
  A plain object is an association list in property order: assigning to an existing key
  keeps its place, assigning to a new key appends it. Keys inherited from the prototype
  are not modelled, so the names of datasets, rows and columns are taken not to be members
  of \<^verbatim>\<open>Object.prototype\<close>, and a key that is not an own key reads as \<^verbatim>\<open>undefined\<close>.
\<close>

type_synonym 'v obj = "(string \<times> 'v) list"

definition obj_keys :: "'v obj \<Rightarrow> string list" where
  "obj_keys props = map fst props"

definition obj_has :: "string \<Rightarrow> 'v obj \<Rightarrow> bool" where
  "obj_has k props = (map_of props k \<noteq> None)"

definition obj_get :: "jsval obj \<Rightarrow> string \<Rightarrow> jsval" where
  "obj_get props k = (case map_of props k of None \<Rightarrow> Undefined | Some v \<Rightarrow> v)"

definition obj_set :: "string \<Rightarrow> 'v \<Rightarrow> 'v obj \<Rightarrow> 'v obj" where
  "obj_set k v props = AList.update k v props"

definition obj_delete :: "string \<Rightarrow> 'v obj \<Rightarrow> 'v obj" where
  "obj_delete k props = AList.delete k props"

text \<open>The spread \<^verbatim>\<open>{ ...target, ...source }\<close>.\<close>

definition obj_spread :: "'v obj \<Rightarrow> 'v obj \<Rightarrow> 'v obj" where
  "obj_spread target source = foldl (\<lambda>acc (k, v). obj_set k v acc) target source"

type_synonym mirror_row = "jsval obj"
type_synonym mirror = "mirror_row obj obj"
type_synonym changes = "jsval obj obj obj"

section \<open>Messages\<close>

text \<open>
  A message as the accessor hands it to the send path carries a cell and a value; the
  replication layer adds the timestamp, which makes it a \<^verbatim>\<open>Message\<close>.
\<close>

record cell_write =
  dataset :: string
  row :: string
  column :: string
  msg_value :: jsval

record message = cell_write +
  timestamp :: string

text \<open>\<^verbatim>\<open>`${msg.dataset}:${msg.row}:${msg.column}`\<close>\<close>

definition latestMessageKey :: "'a cell_write_scheme \<Rightarrow> string" where
  "latestMessageKey msg = dataset msg @ '':'' @ row msg @ '':'' @ column msg"

section \<open>The durable engine\<close>

text \<open>
  Modelled from the spec: an object store of the external IndexedDB engine, which the
  repository uses through the \<^verbatim>\<open>idb\<close> package. A store holds at most one record per
  key and keeps its records in ascending key order; string keys compare lexicographically,
  as JavaScript's \<^verbatim>\<open><\<close> on strings does. \<^verbatim>\<open>get\<close> reads the record of a key,
  \<^verbatim>\<open>put\<close> inserts or replaces it, \<^verbatim>\<open>getAll\<close> lists the records in key order.
  \<^verbatim>\<open>IDBKeyRange.lowerBound(lower, open)\<close> is the range of the keys at least \<^verbatim>\<open>lower\<close>,
  or greater than it when \<^verbatim>\<open>open\<close> is true; \<^verbatim>\<open>open\<close> defaults to false. A cursor
  opened on a range visits the records whose keys are in the range, in ascending key order
  for the direction \<^verbatim>\<open>'next'\<close> and in descending key order for \<^verbatim>\<open>'prev'\<close>; the cursor
  is the list of the records it has yet to visit.
\<close>

type_synonym 'v idb_store = "(string \<times> 'v) list"

definition idb_get :: "'v idb_store \<Rightarrow> string \<Rightarrow> 'v option" where
  "idb_get store k = map_of store k"

fun idb_put :: "string \<Rightarrow> 'v \<Rightarrow> 'v idb_store \<Rightarrow> 'v idb_store" where
  "idb_put k v [] = [(k, v)]"
| "idb_put k v ((k', v') # rest) =
     (if k < k' then (k, v) # (k', v') # rest
      else if k = k' then (k, v) # rest
      else (k', v') # idb_put k v rest)"

definition idb_getAll :: "'v idb_store \<Rightarrow> 'v list" where
  "idb_getAll store = map snd store"

record key_range =
  lower :: string
  lowerOpen :: bool

definition IDBKeyRange_lowerBound :: "string \<Rightarrow> bool \<Rightarrow> key_range" where
  "IDBKeyRange_lowerBound bound opn = \<lparr>lower = bound, lowerOpen = opn\<rparr>"

definition in_range :: "key_range \<Rightarrow> string \<Rightarrow> bool" where
  "in_range rng k = (if lowerOpen rng then lower rng < k else lower rng \<le> k)"

datatype direction = Next | Prev

definition idb_openCursor :: "key_range \<Rightarrow> direction \<Rightarrow> 'v idb_store \<Rightarrow> 'v list" where
  "idb_openCursor rng dir store =
     (let hits = map snd (filter (\<lambda>(k, v). in_range rng k) store)
      in case dir of Next \<Rightarrow> hits | Prev \<Rightarrow> rev hits)"

text \<open>The engine's invariant: keys strictly ascending (hence unique).\<close>

definition idb_store_ok :: "'v idb_store \<Rightarrow> bool" where
  "idb_store_ok store = sorted_wrt (<) (map fst store)"

record idb =
  message_log :: "message idb_store"
  message_latest :: "message idb_store"
  message_meta :: "string idb_store"

definition empty_idb :: idb where
  "empty_idb = \<lparr>message_log = [], message_latest = [], message_meta = []\<rparr>"

text \<open>The log store has the key path \<^verbatim>\<open>timestamp\<close>: every record sits under its own timestamp.\<close>

definition log_ok :: "message idb_store \<Rightarrow> bool" where
  "log_ok log = (idb_store_ok log \<and> list_all (\<lambda>(k, msg). k = timestamp msg) log)"

section \<open>LocalIndexedDB\<close>

subsection \<open>storeMessages\<close>

text \<open>
  \<^verbatim>\<open>storeMessages\<close> maps an \<^verbatim>\<open>async\<close> callback over the batch and awaits
  \<^verbatim>\<open>Promise.all\<close> of the results. Every callback is started before any of them resumes:
  each runs up to its first \<^verbatim>\<open>await\<close>, which places a request on the transaction,
  and resumes only when that request has completed. The engine executes the requests of a
  transaction in the order in which they were placed. The model therefore keeps the queue
  of placed requests, each with the callback (its index and message) that awaits it;
  executing the head request resumes that callback, which either places its next request
  at the end of the queue or returns its result. The source's own comment in
  \<^verbatim>\<open>applyChanges\<close> describes the effect: "we will not read changes made within the
  transaction, there by causing only the last write to survive".

  The four suspension points of the callback, in source order:
  \<^verbatim>\<open>await messageLogStore.get(msg.timestamp)\<close>, \<^verbatim>\<open>await messageLogStore.put(msg)\<close>,
  \<^verbatim>\<open>await latestMessageStore.get(key)\<close>, \<^verbatim>\<open>await latestMessageStore.put(msg, key)\<close>.
\<close>

datatype pending = LogGet message | LogPut message | LatestGet message | LatestPut message

fun rank :: "pending \<Rightarrow> nat" where
  "rank (LogGet msg) = 4"
| "rank (LogPut msg) = 3"
| "rank (LatestGet msg) = 2"
| "rank (LatestPut msg) = 1"

function run_requests ::
  "(nat \<times> pending) list \<Rightarrow> (nat \<rightharpoonup> bool) \<Rightarrow> idb \<Rightarrow> (nat \<rightharpoonup> bool) \<times> idb" where
  "run_requests [] results d = (results, d)"
| "run_requests ((i, LogGet msg) # queue) results d =
     (case idb_get (message_log d) (timestamp msg) of
        None \<Rightarrow> run_requests (queue @ [(i, LogPut msg)]) results d
      | Some r \<Rightarrow> run_requests queue (results(i \<mapsto> False)) d)"
| "run_requests ((i, LogPut msg) # queue) results d =
     run_requests (queue @ [(i, LatestGet msg)]) results
       (d\<lparr>message_log := idb_put (timestamp msg) msg (message_log d)\<rparr>)"
| "run_requests ((i, LatestGet msg) # queue) results d =
     (case idb_get (message_latest d) (latestMessageKey msg) of
        None \<Rightarrow> run_requests (queue @ [(i, LatestPut msg)]) results d
      | Some existingLatest \<Rightarrow>
          if timestamp existingLatest < timestamp msg
          then run_requests (queue @ [(i, LatestPut msg)]) results d
          else run_requests queue (results(i \<mapsto> True)) d)"
| "run_requests ((i, LatestPut msg) # queue) results d =
     run_requests queue (results(i \<mapsto> True))
       (d\<lparr>message_latest := idb_put (latestMessageKey msg) msg (message_latest d)\<rparr>)"
  by pat_completeness auto
termination
  by (relation "measure (\<lambda>(q, r, d). sum_list (map (rank \<circ> snd) q))") auto

text \<open>
  The call starts the callbacks in input order, runs the queue dry and collects the
  results in input order. \<open>None\<close> would mean that some callback never returned, so that
  \<^verbatim>\<open>Promise.all\<close> never resolved.
\<close>

definition storeMessages :: "message list \<Rightarrow> idb \<Rightarrow> (bool list \<times> idb) option" where
  "storeMessages messages d =
     (let (results, d') =
            run_requests (map (\<lambda>(i, msg). (i, LogGet msg)) (enumerate 0 messages)) Map.empty d
      in map_option (\<lambda>bs. (bs, d')) (those (map results [0..<length messages])))"

text \<open>What a callback decides at its two reads.\<close>

definition fresh :: "message idb_store \<Rightarrow> message \<Rightarrow> bool" where
  "fresh log msg = (idb_get log (timestamp msg) = None)"

definition wins :: "message idb_store \<Rightarrow> message \<Rightarrow> bool" where
  "wins latest msg =
     (case idb_get latest (latestMessageKey msg) of
        None \<Rightarrow> True
      | Some existingLatest \<Rightarrow> timestamp existingLatest < timestamp msg)"

definition put_log :: "message idb_store \<Rightarrow> message list \<Rightarrow> message idb_store" where
  "put_log log msgs = foldl (\<lambda>s msg. idb_put (timestamp msg) msg s) log msgs"

definition put_latest :: "message idb_store \<Rightarrow> message list \<Rightarrow> message idb_store" where
  "put_latest latest msgs = foldl (\<lambda>s msg. idb_put (latestMessageKey msg) msg s) latest msgs"

definition settle :: "bool \<Rightarrow> (nat \<times> message) list \<Rightarrow> (nat \<rightharpoonup> bool) \<Rightarrow> (nat \<rightharpoonup> bool)" where
  "settle b items res = foldl (\<lambda>r (i, m). r(i \<mapsto> b)) res items"

text \<open>A sequence of calls, each on the stores the previous one left.\<close>

fun storeMessages_seq :: "message list list \<Rightarrow> idb \<Rightarrow> idb option" where
  "storeMessages_seq [] d = Some d"
| "storeMessages_seq (batch # batches) d =
     (case storeMessages batch d of
        None \<Rightarrow> None
      | Some (results, d') \<Rightarrow> storeMessages_seq batches d')"

text \<open>
  The latest index covers the log: for every logged message the index holds, under the
  message's cell key, a message with a timestamp at least as great.
\<close>

definition covered :: "message idb_store \<Rightarrow> message \<Rightarrow> bool" where
  "covered latest m =
     (case idb_get latest (latestMessageKey m) of
        None \<Rightarrow> False
      | Some e \<Rightarrow> timestamp m \<le> timestamp e)"

definition latest_covers_log :: "idb \<Rightarrow> bool" where
  "latest_covers_log d = list_all (\<lambda>(k, m). covered (message_latest d) m) (message_log d)"

subsection \<open>queryMessages and queryLatestMessages\<close>

text \<open>
  \<^verbatim>\<open>let cursor = await t.store.openCursor(IDBKeyRange.lowerBound(since), 'prev')\<close>, then
  \<^verbatim>\<open>while (cursor) { results.push(cursor.value); cursor = await cursor.continue() }\<close>
\<close>

fun drain_cursor :: "'v list \<Rightarrow> 'v list \<Rightarrow> 'v list" where
  "drain_cursor [] results = results"
| "drain_cursor (v # cursor) results = drain_cursor cursor (results @ [v])"

definition queryMessages :: "string \<Rightarrow> idb \<Rightarrow> message list" where
  "queryMessages since d =
     drain_cursor (idb_openCursor (IDBKeyRange_lowerBound since False) Prev (message_log d)) []"

definition queryLatestMessages :: "'a cell_write_scheme list \<Rightarrow> idb \<Rightarrow> message option list" where
  "queryLatestMessages messages d =
     map (\<lambda>msg. idb_get (message_latest d) (latestMessageKey msg)) messages"

subsection \<open>Change listeners and applyChanges\<close>

definition listenChanges :: "'l \<Rightarrow> 'l list \<Rightarrow> 'l list" where
  "listenChanges cb changeListeners = changeListeners @ [cb]"

definition unsubscribe :: "'l \<Rightarrow> 'l list \<Rightarrow> 'l list" where
  "unsubscribe cb changeListeners = filter (\<lambda>e. e \<noteq> cb) changeListeners"






subsection \<open>The projectors\<close>

definition syncDatasetMem_row :: "string \<Rightarrow> jsval obj \<Rightarrow> mirror_row obj \<Rightarrow> mirror_row obj" where
  "syncDatasetMem_row rid cols ds =
     (case map_of ds rid of
        None \<Rightarrow> obj_set rid (obj_spread [(''id'', Str rid)] cols) ds
      | Some r \<Rightarrow> obj_set rid (obj_spread r cols) ds)"

definition syncDatasetMem_dataset :: "mirror \<Rightarrow> string \<times> jsval obj obj \<Rightarrow> mirror" where
  "syncDatasetMem_dataset m entry =
     (let ds = (case map_of m (fst entry) of None \<Rightarrow> [] | Some ds \<Rightarrow> ds)
      in obj_set (fst entry) (foldl (\<lambda>acc (rid, cols). syncDatasetMem_row rid cols acc) ds (snd entry)) m)"

definition syncDatasetMem :: "mirror \<Rightarrow> changes \<Rightarrow> mirror" where
  "syncDatasetMem m chs = foldl syncDatasetMem_dataset m chs"

text \<open>The body of the \<^verbatim>\<open>forEach\<close> of \<^verbatim>\<open>loadDatasetMem\<close>.\<close>

definition loadDatasetMem_step :: "mirror \<Rightarrow> message \<Rightarrow> mirror" where
  "loadDatasetMem_step m msg =
     (let d = (case map_of m (dataset msg) of None \<Rightarrow> [] | Some d \<Rightarrow> d);
          r = (case map_of d (row msg) of None \<Rightarrow> [(''id'', Str (row msg))] | Some r \<Rightarrow> r)
      in obj_set (dataset msg) (obj_set (row msg) (obj_set (column msg) (msg_value msg) r) d) m)"

definition loadDatasetMem :: "mirror \<Rightarrow> idb \<Rightarrow> mirror" where
  "loadDatasetMem m d = foldl loadDatasetMem_step m (idb_getAll (message_latest d))"

section \<open>The store and its accessors\<close>

text \<open>
  What an accessor raises. The two errors whose text embeds a value keep the parts of the
  text as fields: \<open>IdMismatch dataset id valueID\<close> is the "id mismatch in dataset ..."
  error of a dataset-level write, \<open>NonPrimitive dataset id prop val\<close> the
  "non primitive value for dataset ..." error of a row-level read.
\<close>

datatype error =
    TypeError string
  | Error string
  | IdMismatch string string jsval
  | NonPrimitive string string string jsval
  | DataCloneError

definition structuredClone :: "jsval \<Rightarrow> error + jsval" where
  "structuredClone v = (if cloneable v then Inr v else Inl DataCloneError)"

text \<open>
  The store's state as the accessors see it: the mirror \<^verbatim>\<open>mem\<close>, and the batches handed
  to \<^verbatim>\<open>send\<close> so far, oldest first. \<^verbatim>\<open>send\<close> passes the batch to the replication
  layer and keeps its promise in the pending set. The replication layer stores and applies
  the batch asynchronously; what it does then reaches the mirror through the change
  listeners, after the accessor has returned, and not through \<^verbatim>\<open>send\<close> itself.
\<close>

record store =
  mem :: mirror
  sent :: "cell_write list list"

definition empty_store :: store where
  "empty_store = \<lparr>mem = [], sent = []\<rparr>"

definition send :: "cell_write list \<Rightarrow> store \<Rightarrow> store" where
  "send batch st = st\<lparr>sent := sent st @ [batch]\<rparr>"

definition mem_row :: "store \<Rightarrow> string \<Rightarrow> string \<Rightarrow> mirror_row option" where
  "mem_row st ds rid = (case map_of (mem st) ds of None \<Rightarrow> None | Some d \<Rightarrow> map_of d rid)"

record descriptor =
  desc_value :: jsval
  writable :: bool
  enumerable :: bool
  configurable :: bool

subsection \<open>DBProxy\<close>

definition DBProxy_get :: "string \<Rightarrow> store \<Rightarrow> (error + string) \<times> store" where
  "DBProxy_get ds st = (Inr ds, st)"

definition DBProxy_set :: "string \<Rightarrow> jsval \<Rightarrow> store \<Rightarrow> (error + bool) \<times> store" where
  "DBProxy_set ds v st = (Inl (TypeError ''cannot set on DB''), st)"

definition DBProxy_deleteProperty :: "string \<Rightarrow> store \<Rightarrow> (error + bool) \<times> store" where
  "DBProxy_deleteProperty ds st = (Inl (TypeError ''cannot delete on DB''), st)"

definition DBProxy_ownKeys :: "store \<Rightarrow> (error + string list) \<times> store" where
  "DBProxy_ownKeys st = (Inr (obj_keys (mem st)), st)"

definition DBProxy_has :: "string \<Rightarrow> store \<Rightarrow> (error + bool) \<times> store" where
  "DBProxy_has ds st = (Inr (obj_has ds (mem st)), st)"

definition DBProxy_defineProperty :: "string \<Rightarrow> descriptor \<Rightarrow> store \<Rightarrow> (error + bool) \<times> store" where
  "DBProxy_defineProperty ds desc st = (Inl (TypeError ''cannot defineProperty on DB''), st)"

subsection \<open>DatasetProxy\<close>

text \<open>
  \<^verbatim>\<open>#getDataset\<close> creates the dataset in the mirror when it is missing. A dataset is an
  object, hence truthy, so \<^verbatim>\<open>!dataset\<close> holds exactly when the key is absent.
\<close>

definition getDataset :: "string \<Rightarrow> store \<Rightarrow> mirror_row obj \<times> store" where
  "getDataset ds st =
     (case map_of (mem st) ds of
        None \<Rightarrow> ([], st\<lparr>mem := obj_set ds [] (mem st)\<rparr>)
      | Some d \<Rightarrow> (d, st))"

text \<open>\<^verbatim>\<open>const row = this.#store.mem[this.#dataset]?.[id]; return row && !row.tombstone\<close>\<close>

definition DatasetProxy_has :: "string \<Rightarrow> string \<Rightarrow> store \<Rightarrow> bool" where
  "DatasetProxy_has ds rid st =
     (case mem_row st ds rid of
        None \<Rightarrow> False
      | Some r \<Rightarrow> \<not> truthy (obj_get r ''tombstone''))"

text \<open>The row proxy returned is identified by its dataset and row id; \<open>None\<close> is \<^verbatim>\<open>undefined\<close>.\<close>

definition DatasetProxy_get :: "string \<Rightarrow> string \<Rightarrow> store \<Rightarrow> (string \<times> string) option" where
  "DatasetProxy_get ds rid st = (if DatasetProxy_has ds rid st then Some (ds, rid) else None)"

text \<open>
  The two halves of the batch of a dataset-level write:
  \<^verbatim>\<open>Object.entries(value).map(([k, v]) => { if (existing && dequal(existing[k], v)) { return }
  return { dataset, row: id, column: k, value: v } }).filter(v => v)\<close> and
  \<^verbatim>\<open>Object.keys(existing).map(k => { if (k in value) { return }
  return { dataset, row: id, column: k, value: undefined } }).filter(v => v)\<close>.
  \<^verbatim>\<open>existing\<close> is an object, hence truthy.
\<close>

definition changed_messages :: "string \<Rightarrow> string \<Rightarrow> mirror_row \<Rightarrow> jsval obj \<Rightarrow> cell_write list" where
  "changed_messages ds rid existing val =
     List.map_filter
       (\<lambda>(k, v). if dequal (obj_get existing k) v then None
                   else Some \<lparr>dataset = ds, row = rid, column = k, msg_value = v\<rparr>)
       val"

definition dropped_messages :: "string \<Rightarrow> string \<Rightarrow> mirror_row \<Rightarrow> jsval obj \<Rightarrow> cell_write list" where
  "dropped_messages ds rid existing val =
     List.map_filter
       (\<lambda>k. if obj_has k val then None
              else Some \<lparr>dataset = ds, row = rid, column = k, msg_value = Undefined\<rparr>)
       (obj_keys existing)"

text \<open>
  The write from \<^verbatim>\<open>const dataset = this.#getDataset()\<close> on, for the cloned value with its
  id in place: first the state in which the batch has been sent, then the assignment
  \<^verbatim>\<open>dataset[id] = value\<close>.
\<close>

definition DatasetProxy_set_send :: "string \<Rightarrow> string \<Rightarrow> jsval obj \<Rightarrow> store \<Rightarrow> store" where
  "DatasetProxy_set_send ds rid val st =
     (let (d, st1) = getDataset ds st;
          existing = (case map_of d rid of None \<Rightarrow> [] | Some r \<Rightarrow> r)
      in send (changed_messages ds rid existing val @ dropped_messages ds rid existing val) st1)"

definition DatasetProxy_set_assign :: "string \<Rightarrow> string \<Rightarrow> jsval obj \<Rightarrow> store \<Rightarrow> store" where
  "DatasetProxy_set_assign ds rid val st =
     (let d = (case map_of (mem st) ds of None \<Rightarrow> [] | Some d \<Rightarrow> d)
      in st\<lparr>mem := obj_set ds (obj_set rid val d) (mem st)\<rparr>)"

text \<open>
  The whole write. A value that is not of type object is refused; the value is cloned;
  \<^verbatim>\<open>null\<close> is of type object and clones to itself, and the test \<^verbatim>\<open>'id' in value\<close>
  then raises the language's own \<^verbatim>\<open>TypeError\<close> (the text given here stands for the
  engine's); an \<open>id\<close> that is not strictly equal to the row id is refused; a missing
  \<open>id\<close> is added; then the batch is sent and the row assigned.
\<close>

definition DatasetProxy_set :: "string \<Rightarrow> string \<Rightarrow> jsval \<Rightarrow> store \<Rightarrow> (error + bool) \<times> store" where
  "DatasetProxy_set ds rid v st =
     (if typeof v \<noteq> ''object''
      then (Inl (Error (''cannot use non object value in dataset \"'' @ ds @
                        ''\" with row id \"'' @ rid @ ''\"'')), st)
      else
        (case structuredClone v of
           Inl e \<Rightarrow> (Inl e, st)
         | Inr (Obj val) \<Rightarrow>
             (if obj_has ''id'' val
              then
                (if Str rid \<noteq> obj_get val ''id''
                 then (Inl (IdMismatch ds rid (obj_get val ''id'')), st)
                 else (Inr True, DatasetProxy_set_assign ds rid val (DatasetProxy_set_send ds rid val st)))
              else
                (let val' = obj_set ''id'' (Str rid) val
                 in (Inr True, DatasetProxy_set_assign ds rid val' (DatasetProxy_set_send ds rid val' st))))
         | Inr other \<Rightarrow> (Inl (TypeError ''cannot use in operator to search for id in null''), st)))"

definition DatasetProxy_deleteProperty :: "string \<Rightarrow> string \<Rightarrow> store \<Rightarrow> (error + bool) \<times> store" where
  "DatasetProxy_deleteProperty ds rid st =
     (let st1 = send [\<lparr>dataset = ds, row = rid, column = ''tombstone'', msg_value = Bool True\<rparr>] st;
          (d, st2) = getDataset ds st1
      in (Inr True,
          (if obj_has rid d
           then st2\<lparr>mem := obj_set ds
                   (obj_set rid (obj_set ''tombstone'' (Bool True)
                      (case map_of d rid of None \<Rightarrow> [] | Some r \<Rightarrow> r)) d) (mem st2)\<rparr>
           else st2\<lparr>mem := obj_set ds (obj_set rid [(''tombstone'', Bool True)] d) (mem st2)\<rparr>)))"

text \<open>\<^verbatim>\<open>Object.keys(dataset).filter(r => !dataset[r].tombstone)\<close>\<close>

definition DatasetProxy_ownKeys :: "string \<Rightarrow> store \<Rightarrow> string list \<times> store" where
  "DatasetProxy_ownKeys ds st =
     (let (d, st1) = getDataset ds st
      in (filter (\<lambda>r. \<not> truthy (obj_get (case map_of d r of None \<Rightarrow> [] | Some x \<Rightarrow> x) ''tombstone''))
            (obj_keys d), st1))"

definition DatasetProxy_defineProperty ::
  "string \<Rightarrow> string \<Rightarrow> descriptor \<Rightarrow> store \<Rightarrow> (error + bool) \<times> store" where
  "DatasetProxy_defineProperty ds rid desc st =
     (Inl (TypeError (''cannot defineProperty on dataset \"'' @ ds @ ''\"'')), st)"

subsection \<open>RowProxy\<close>

definition RowProxy_get :: "string \<Rightarrow> string \<Rightarrow> string \<Rightarrow> store \<Rightarrow> error + jsval" where
  "RowProxy_get ds rid prop st =
     (case mem_row st ds rid of
        None \<Rightarrow> Inr Undefined
      | Some r \<Rightarrow>
          (let val = obj_get r prop
           in if isPrimitive val \<or> \<not> obj_has prop r then Inr val
              else Inl (NonPrimitive ds rid prop val)))"

definition RowProxy_set :: "string \<Rightarrow> string \<Rightarrow> string \<Rightarrow> jsval \<Rightarrow> store \<Rightarrow> (error + bool) \<times> store" where
  "RowProxy_set ds rid prop v st =
     (let st1 = send [\<lparr>dataset = ds, row = rid, column = prop, msg_value = v\<rparr>] st;
          d = (case map_of (mem st1) ds of None \<Rightarrow> [] | Some d \<Rightarrow> d);
          r = (case map_of d rid of None \<Rightarrow> [(''id'', Str rid)] | Some r \<Rightarrow> r)
      in (Inr True, st1\<lparr>mem := obj_set ds (obj_set rid (obj_set prop v r) d) (mem st1)\<rparr>))"

text \<open>\<^verbatim>\<open>delete this.#store.mem[this.#dataset]?.[this.#id]?.[prop]\<close>\<close>

definition RowProxy_deleteProperty :: "string \<Rightarrow> string \<Rightarrow> string \<Rightarrow> store \<Rightarrow> (error + bool) \<times> store" where
  "RowProxy_deleteProperty ds rid prop st =
     (let st1 = send [\<lparr>dataset = ds, row = rid, column = prop, msg_value = Undefined\<rparr>] st
      in (Inr True,
          (case map_of (mem st1) ds of
             None \<Rightarrow> st1
           | Some d \<Rightarrow>
               (case map_of d rid of
                  None \<Rightarrow> st1
                | Some r \<Rightarrow> st1\<lparr>mem := obj_set ds (obj_set rid (obj_delete prop r) d) (mem st1)\<rparr>))))"

definition RowProxy_ownKeys :: "string \<Rightarrow> string \<Rightarrow> store \<Rightarrow> string list" where
  "RowProxy_ownKeys ds rid st =
     (case mem_row st ds rid of None \<Rightarrow> [] | Some r \<Rightarrow> obj_keys r)"

definition RowProxy_has :: "string \<Rightarrow> string \<Rightarrow> string \<Rightarrow> store \<Rightarrow> bool" where
  "RowProxy_has ds rid p st =
     (case mem_row st ds rid of None \<Rightarrow> False | Some r \<Rightarrow> obj_has p r)"

definition RowProxy_defineProperty ::
  "string \<Rightarrow> string \<Rightarrow> string \<Rightarrow> descriptor \<Rightarrow> store \<Rightarrow> (error + bool) \<times> store" where
  "RowProxy_defineProperty ds rid prop desc st =
     (Inl (TypeError (''cannot defineProperty on dataset \"'' @ ds @ ''\" with row id '' @ rid)), st)"

text \<open>\<^verbatim>\<open>const value = this.get(target, prop); if (value) { return { value, ... } }\<close>\<close>

definition RowProxy_getOwnPropertyDescriptor ::
  "string \<Rightarrow> string \<Rightarrow> string \<Rightarrow> store \<Rightarrow> error + descriptor option" where
  "RowProxy_getOwnPropertyDescriptor ds rid prop st =
     (case RowProxy_get ds rid prop st of
        Inl e \<Rightarrow> Inl e
      | Inr v \<Rightarrow>
          Inr (if truthy v
               then Some \<lparr>desc_value = v, writable = True, enumerable = True, configurable = True\<rparr>
               else None))"

text \<open>
  Enumerating a proxy (\<^verbatim>\<open>Object.keys\<close>, \<^verbatim>\<open>for ... in\<close>, a spread): the language asks the
  \<^verbatim>\<open>ownKeys\<close> trap for the keys and then the \<^verbatim>\<open>getOwnPropertyDescriptor\<close> trap for each
  of them, in order, and keeps a key when the trap returns a descriptor that is enumerable.
  The first trap that raises ends the enumeration with its error.
\<close>

fun enumerable_own_keys :: "(string \<Rightarrow> error + descriptor option) \<Rightarrow> string list \<Rightarrow> error + string list" where
  "enumerable_own_keys gopd [] = Inr []"
| "enumerable_own_keys gopd (k # ks) =
     (case gopd k of
        Inl e \<Rightarrow> Inl e
      | Inr None \<Rightarrow> enumerable_own_keys gopd ks
      | Inr (Some desc) \<Rightarrow>
          (case enumerable_own_keys gopd ks of
             Inl e \<Rightarrow> Inl e
           | Inr rest \<Rightarrow> Inr (if enumerable desc then k # rest else rest)))"

definition RowProxy_enumerate :: "string \<Rightarrow> string \<Rightarrow> store \<Rightarrow> error + string list" where
  "RowProxy_enumerate ds rid st =
     enumerable_own_keys (\<lambda>k. RowProxy_getOwnPropertyDescriptor ds rid k st) (RowProxy_ownKeys ds rid st)"

text \<open>Every row of the mirror carries an \<^verbatim>\<open>id\<close> column equal to its row key.\<close>

definition mirror_ids_ok :: "mirror \<Rightarrow> bool" where
  "mirror_ids_ok m =
     list_all (\<lambda>(ds, d). list_all (\<lambda>(rid, r). map_of r ''id'' = Some (Str rid)) d) m"

definition rows_ok :: "mirror_row obj \<Rightarrow> bool" where
  "rows_ok d = list_all (\<lambda>(rid, r). map_of r ''id'' = Some (Str rid)) d"

section \<open>storeMessages runs in rounds\<close>

text \<open>
  Since every callback places its first request before any request completes, the queue
  is worked off in four rounds: all reads of the log, then the writes to the log, then
  all reads of the latest index, then the writes to it. The reads of a round see the
  stores as they were before the writes of the same call.
\<close>

lemma settle_Nil [simp]: "settle b [] res = res"
  by (simp add: settle_def)

lemma settle_Cons [simp]: "settle b ((i, m) # items) res = settle b items (res(i \<mapsto> b))"
  by (simp add: settle_def)

lemma settle_apply:
  "settle b items res j = (if j \<in> fst ` set items then Some b else res j)"
  by (induction items arbitrary: res) (auto simp: image_iff, force+)

lemma run_LogGet_round:
  "run_requests (map (\<lambda>(i, m). (i, LogGet m)) xs @ q) res d =
   run_requests (q @ map (\<lambda>(i, m). (i, LogPut m)) (filter (\<lambda>(i, m). fresh (message_log d) m) xs))
     (settle False (filter (\<lambda>(i, m). \<not> fresh (message_log d) m) xs) res) d"
proof (induction xs arbitrary: q res)
  case Nil
  show ?case by simp
next
  case (Cons x xs)
  obtain i m where x: "x = (i, m)" by (cases x)
  show ?case
  proof (cases "fresh (message_log d) m")
    case True
    then have "run_requests (map (\<lambda>(i, m). (i, LogGet m)) (x # xs) @ q) res d =
               run_requests (map (\<lambda>(i, m). (i, LogGet m)) xs @ (q @ [(i, LogPut m)])) res d"
      by (simp add: x fresh_def)
    also have "\<dots> = run_requests ((q @ [(i, LogPut m)]) @
                 map (\<lambda>(i, m). (i, LogPut m)) (filter (\<lambda>(i, m). fresh (message_log d) m) xs))
                 (settle False (filter (\<lambda>(i, m). \<not> fresh (message_log d) m) xs) res) d"
      by (rule Cons.IH)
    finally show ?thesis using True by (simp add: x)
  next
    case False
    then obtain r where r: "idb_get (message_log d) (timestamp m) = Some r"
      by (auto simp: fresh_def)
    have "run_requests (map (\<lambda>(i, m). (i, LogGet m)) (x # xs) @ q) res d =
          run_requests (map (\<lambda>(i, m). (i, LogGet m)) xs @ q) (res(i \<mapsto> False)) d"
      by (simp add: x r)
    also have "\<dots> = run_requests (q @
                 map (\<lambda>(i, m). (i, LogPut m)) (filter (\<lambda>(i, m). fresh (message_log d) m) xs))
                 (settle False (filter (\<lambda>(i, m). \<not> fresh (message_log d) m) xs) (res(i \<mapsto> False))) d"
      by (rule Cons.IH)
    finally show ?thesis using False by (simp add: x)
  qed
qed

lemma run_LogPut_round:
  "run_requests (map (\<lambda>(i, m). (i, LogPut m)) ys @ q) res d =
   run_requests (q @ map (\<lambda>(i, m). (i, LatestGet m)) ys) res
     (d\<lparr>message_log := put_log (message_log d) (map snd ys)\<rparr>)"
proof (induction ys arbitrary: q d)
  case Nil
  show ?case by (simp add: put_log_def)
next
  case (Cons y ys)
  obtain i m where y: "y = (i, m)" by (cases y)
  have "run_requests (map (\<lambda>(i, m). (i, LogPut m)) (y # ys) @ q) res d =
        run_requests (map (\<lambda>(i, m). (i, LogPut m)) ys @ (q @ [(i, LatestGet m)])) res
          (d\<lparr>message_log := idb_put (timestamp m) m (message_log d)\<rparr>)"
    by (simp add: y)
  also have "\<dots> = run_requests ((q @ [(i, LatestGet m)]) @ map (\<lambda>(i, m). (i, LatestGet m)) ys) res
      ((d\<lparr>message_log := idb_put (timestamp m) m (message_log d)\<rparr>)
         \<lparr>message_log := put_log (message_log (d\<lparr>message_log := idb_put (timestamp m) m (message_log d)\<rparr>)) (map snd ys)\<rparr>)"
    by (rule Cons.IH)
  finally show ?case by (simp add: y put_log_def)
qed

lemma run_LatestGet_round:
  "run_requests (map (\<lambda>(i, m). (i, LatestGet m)) ys @ q) res d =
   run_requests (q @ map (\<lambda>(i, m). (i, LatestPut m)) (filter (\<lambda>(i, m). wins (message_latest d) m) ys))
     (settle True (filter (\<lambda>(i, m). \<not> wins (message_latest d) m) ys) res) d"
proof (induction ys arbitrary: q res)
  case Nil
  show ?case by simp
next
  case (Cons y ys)
  obtain i m where y: "y = (i, m)" by (cases y)
  show ?case
  proof (cases "wins (message_latest d) m")
    case True
    then have "run_requests (map (\<lambda>(i, m). (i, LatestGet m)) (y # ys) @ q) res d =
               run_requests (map (\<lambda>(i, m). (i, LatestGet m)) ys @ (q @ [(i, LatestPut m)])) res d"
      by (simp add: y wins_def split: option.splits)
    also have "\<dots> = run_requests ((q @ [(i, LatestPut m)]) @
                 map (\<lambda>(i, m). (i, LatestPut m)) (filter (\<lambda>(i, m). wins (message_latest d) m) ys))
                 (settle True (filter (\<lambda>(i, m). \<not> wins (message_latest d) m) ys) res) d"
      by (rule Cons.IH)
    finally show ?thesis using True by (simp add: y)
  next
    case False
    then have "run_requests (map (\<lambda>(i, m). (i, LatestGet m)) (y # ys) @ q) res d =
          run_requests (map (\<lambda>(i, m). (i, LatestGet m)) ys @ q) (res(i \<mapsto> True)) d"
      by (simp add: y wins_def split: option.splits)
    also have "\<dots> = run_requests (q @
                 map (\<lambda>(i, m). (i, LatestPut m)) (filter (\<lambda>(i, m). wins (message_latest d) m) ys))
                 (settle True (filter (\<lambda>(i, m). \<not> wins (message_latest d) m) ys) (res(i \<mapsto> True))) d"
      by (rule Cons.IH)
    finally show ?thesis using False by (simp add: y)
  qed
qed

lemma run_LatestPut_round:
  "run_requests (map (\<lambda>(i, m). (i, LatestPut m)) ws) res d =
   (settle True ws res, d\<lparr>message_latest := put_latest (message_latest d) (map snd ws)\<rparr>)"
proof (induction ws arbitrary: res d)
  case Nil
  show ?case by (simp add: put_latest_def)
next
  case (Cons w ws)
  obtain i m where w: "w = (i, m)" by (cases w)
  have "run_requests (map (\<lambda>(i, m). (i, LatestPut m)) (w # ws)) res d =
        run_requests (map (\<lambda>(i, m). (i, LatestPut m)) ws) (res(i \<mapsto> True))
          (d\<lparr>message_latest := idb_put (latestMessageKey m) m (message_latest d)\<rparr>)"
    by (simp add: w)
  also have "\<dots> = (settle True ws (res(i \<mapsto> True)),
      (d\<lparr>message_latest := idb_put (latestMessageKey m) m (message_latest d)\<rparr>)
        \<lparr>message_latest := put_latest (message_latest
           (d\<lparr>message_latest := idb_put (latestMessageKey m) m (message_latest d)\<rparr>)) (map snd ws)\<rparr>)"
    by (rule Cons.IH)
  finally show ?case by (simp add: w put_latest_def)
qed

lemma run_requests_rounds:
  "run_requests (map (\<lambda>(i, m). (i, LogGet m)) xs) res d =
   (let new = filter (\<lambda>(i, m). fresh (message_log d) m) xs;
        winners = filter (\<lambda>(i, m). wins (message_latest d) m) new
    in (settle True winners
          (settle True (filter (\<lambda>(i, m). \<not> wins (message_latest d) m) new)
             (settle False (filter (\<lambda>(i, m). \<not> fresh (message_log d) m) xs) res)),
        d\<lparr>message_log := put_log (message_log d) (map snd new),
           message_latest := put_latest (message_latest d) (map snd winners)\<rparr>))"
  using run_LogGet_round [of xs "[]" res d]
  by (simp add: run_LogPut_round [where q = "[]", simplified]
                run_LatestGet_round [where q = "[]", simplified]
                run_LatestPut_round Let_def)


lemma enumerate_filter_snd:
  "map snd (filter (\<lambda>(i, m). P m) (enumerate n xs)) = filter P xs"
  by (induction xs arbitrary: n) auto

lemma enumerate_filter_fst:
  "j \<in> fst ` set (filter (\<lambda>(i, m). P m) (enumerate 0 xs)) \<longleftrightarrow> j < length xs \<and> P (xs ! j)"
proof -
  have "j \<in> fst ` set (filter (\<lambda>(i, m). P m) (enumerate 0 xs)) \<longleftrightarrow>
        (\<exists>m. (j, m) \<in> set (enumerate 0 xs) \<and> P m)"
    by (auto simp: image_iff)
  also have "\<dots> \<longleftrightarrow> j < length xs \<and> P (xs ! j)"
    by (simp add: in_set_enumerate_eq)
  finally show ?thesis .
qed

lemma enumerate_filter2_fst:
  "j \<in> fst ` set (filter (\<lambda>(i, m). Q m) (filter (\<lambda>(i, m). P m) (enumerate 0 xs))) \<longleftrightarrow>
     j < length xs \<and> P (xs ! j) \<and> Q (xs ! j)"
proof -
  have "j \<in> fst ` set (filter (\<lambda>(i, m). Q m) (filter (\<lambda>(i, m). P m) (enumerate 0 xs))) \<longleftrightarrow>
        (\<exists>m. (j, m) \<in> set (enumerate 0 xs) \<and> P m \<and> Q m)"
    by (auto simp: image_iff)
  also have "\<dots> \<longleftrightarrow> j < length xs \<and> P (xs ! j) \<and> Q (xs ! j)"
    by (simp add: in_set_enumerate_eq)
  finally show ?thesis .
qed

lemma those_map_Some:
  "(\<And>x. x \<in> set xs \<Longrightarrow> f x = Some (g x)) \<Longrightarrow> those (map f xs) = Some (map g xs)"
proof (induction xs)
  case Nil
  show ?case by simp
next
  case (Cons x xs)
  have "f x = Some (g x)" by (rule Cons.prems) simp
  moreover have "those (map f xs) = Some (map g xs)"
    by (rule Cons.IH) (simp add: Cons.prems)
  ultimately show ?case by simp
qed

lemma map_nth_upt: "map (\<lambda>j. f (xs ! j)) [0..<length xs] = map f xs"
proof -
  have "map f (map ((!) xs) [0..<length xs]) = map f xs"
    by (simp only: map_nth)
  then show ?thesis by (simp only: map_map comp_def)
qed

lemma storeMessages_rounds:
  "storeMessages messages d =
     Some (map (fresh (message_log d)) messages,
           d\<lparr>message_log := put_log (message_log d) (filter (fresh (message_log d)) messages),
             message_latest := put_latest (message_latest d)
               (filter (wins (message_latest d)) (filter (fresh (message_log d)) messages))\<rparr>)"
proof -
  let ?xs = "enumerate 0 messages"
  let ?new = "filter (\<lambda>(i, m). fresh (message_log d) m) ?xs"
  let ?res = "settle True (filter (\<lambda>(i, m). wins (message_latest d) m) ?new)
          (settle True (filter (\<lambda>(i, m). \<not> wins (message_latest d) m) ?new)
             (settle False (filter (\<lambda>(i, m). \<not> fresh (message_log d) m) ?xs) Map.empty))"
  have new: "map snd ?new = filter (fresh (message_log d)) messages"
    by (rule enumerate_filter_snd)
  have winners: "map snd (filter (\<lambda>(i, m). wins (message_latest d) m) ?new) =
      filter (wins (message_latest d)) (filter (fresh (message_log d)) messages)"
  proof -
    have "filter (\<lambda>(i, m). wins (message_latest d) m) ?new =
          filter (\<lambda>(i, m). fresh (message_log d) m \<and> wins (message_latest d) m) ?xs"
      by (simp add: split_def)
    then have "map snd (filter (\<lambda>(i, m). wins (message_latest d) m) ?new) =
          filter (\<lambda>m. fresh (message_log d) m \<and> wins (message_latest d) m) messages"
      by (simp only: enumerate_filter_snd)
    then show ?thesis by simp
  qed
  have res: "?res j = Some (fresh (message_log d) (messages ! j))" if "j < length messages" for j
  proof -
    have a: "j \<in> fst ` set (filter (\<lambda>(i, m). \<not> fresh (message_log d) m) ?xs) \<longleftrightarrow>
             \<not> fresh (message_log d) (messages ! j)"
      using that by (simp only: enumerate_filter_fst) simp
    have b: "j \<in> fst ` set (filter (\<lambda>(i, m). \<not> wins (message_latest d) m) ?new) \<longleftrightarrow>
             fresh (message_log d) (messages ! j) \<and> \<not> wins (message_latest d) (messages ! j)"
      using that by (simp only: enumerate_filter2_fst) simp
    have c: "j \<in> fst ` set (filter (\<lambda>(i, m). wins (message_latest d) m) ?new) \<longleftrightarrow>
             fresh (message_log d) (messages ! j) \<and> wins (message_latest d) (messages ! j)"
      using that by (simp only: enumerate_filter2_fst) simp
    show ?thesis
      by (simp only: settle_apply a b c) auto
  qed
  have "those (map ?res [0..<length messages]) =
        Some (map (\<lambda>j. fresh (message_log d) (messages ! j)) [0..<length messages])"
  proof (rule those_map_Some)
    fix j assume "j \<in> set [0..<length messages]"
    then have "j < length messages" by simp
    then show "?res j = Some (fresh (message_log d) (messages ! j))" by (rule res)
  qed
  then have th: "those (map ?res [0..<length messages]) = Some (map (fresh (message_log d)) messages)"
    by (simp add: map_nth_upt)
  show ?thesis
    unfolding storeMessages_def run_requests_rounds Let_def
    by (simp only: prod.case th new winners option.map)
qed

section \<open>Properties of the durable engine\<close>

lemma idb_get_put:
  "idb_get (idb_put k v s) k' = (if k' = k then Some v else idb_get s k')"
  by (induction s) (auto simp: idb_get_def)

lemma idb_put_keys: "fst ` set (idb_put k v s) = insert k (fst ` set s)"
proof (induction s)
  case Nil
  show ?case by simp
next
  case (Cons p s)
  obtain k' v' where p: "p = (k', v')" by (cases p)
  show ?case using Cons.IH by (simp add: p insert_commute)
qed

lemma find_snoc:
  "find P (xs @ [x]) = (case find P xs of Some y \<Rightarrow> Some y | None \<Rightarrow> if P x then Some x else None)"
  by (induction xs) auto

lemma idb_store_ok_put: "idb_store_ok s \<Longrightarrow> idb_store_ok (idb_put k v s)"
proof (induction s)
  case Nil
  show ?case by (simp add: idb_store_ok_def)
next
  case (Cons p s)
  obtain k' v' where p: "p = (k', v')" by (cases p)
  have tail: "idb_store_ok s" and less: "\<forall>x \<in> fst ` set s. k' < x"
    using Cons.prems by (auto simp: idb_store_ok_def p)
  show ?case
  proof (cases "k < k'")
    case True
    with Cons.prems show ?thesis
      by (auto simp: idb_store_ok_def p)
  next
    case False
    show ?thesis
    proof (cases "k = k'")
      case True
      with Cons.prems show ?thesis by (simp add: idb_store_ok_def p)
    next
      case neq: False
      with False have "k' < k" by simp
      moreover have "idb_store_ok (idb_put k v s)" by (rule Cons.IH [OF tail])
      ultimately show ?thesis
        using False neq less idb_put_keys [of k v s]
        by (auto simp: idb_store_ok_def p)
    qed
  qed
qed

lemma keyed_put:
  "list_all (\<lambda>(k, msg). k = timestamp msg) s \<Longrightarrow>
   list_all (\<lambda>(k, msg). k = timestamp msg) (idb_put (timestamp m) m s)"
  by (induction s) auto

lemma log_ok_put: "log_ok s \<Longrightarrow> log_ok (idb_put (timestamp m) m s)"
  by (simp add: log_ok_def idb_store_ok_put keyed_put)

lemma log_ok_put_log: "log_ok s \<Longrightarrow> log_ok (put_log s msgs)"
  unfolding put_log_def by (induction msgs arbitrary: s) (simp_all add: log_ok_put)

lemma idb_store_ok_put_latest: "idb_store_ok s \<Longrightarrow> idb_store_ok (put_latest s msgs)"
  unfolding put_latest_def by (induction msgs arbitrary: s) (simp_all add: idb_store_ok_put)

lemma log_ok_storeMessages:
  "log_ok (message_log d) \<Longrightarrow> storeMessages messages d = Some (results, d') \<Longrightarrow>
   log_ok (message_log d')"
  by (auto simp: storeMessages_rounds log_ok_put_log)

lemma log_ok_empty: "log_ok (message_log empty_idb)"
  by (simp add: empty_idb_def log_ok_def idb_store_ok_def)

lemma idb_get_put_log:
  "idb_get (put_log s msgs) k =
     (case find (\<lambda>m. timestamp m = k) (rev msgs) of Some m \<Rightarrow> Some m | None \<Rightarrow> idb_get s k)"
  unfolding put_log_def
  by (induction msgs arbitrary: s) (auto simp: find_snoc idb_get_put split: option.splits)

lemma idb_get_put_latest:
  "idb_get (put_latest s msgs) k =
     (case find (\<lambda>m. latestMessageKey m = k) (rev msgs) of Some m \<Rightarrow> Some m | None \<Rightarrow> idb_get s k)"
  unfolding put_latest_def
  by (induction msgs arbitrary: s) (auto simp: find_snoc idb_get_put split: option.splits)

lemma drain_cursor_append: "drain_cursor cursor results = results @ cursor"
  by (induction cursor arbitrary: results) auto

lemma one_record_per_key:
  "idb_store_ok s \<Longrightarrow> idb_get s k = Some v \<Longrightarrow> filter (\<lambda>(k', v'). k' = k) s = [(k, v)]"
proof (induction s)
  case Nil
  then show ?case by (simp add: idb_get_def)
next
  case (Cons p s)
  obtain k' v' where p: "p = (k', v')" by (cases p)
  have tail: "idb_store_ok s" and less: "\<forall>x \<in> fst ` set s. k' < x"
    using Cons.prems by (auto simp: idb_store_ok_def p)
  show ?case
  proof (cases "k' = k")
    case True
    have "filter (\<lambda>(k', v'). k' = k) s = []"
      using less True by (auto simp: filter_empty_conv)
    with True Cons.prems show ?thesis by (simp add: p idb_get_def)
  next
    case False
    with Cons.prems have "idb_get s k = Some v" by (simp add: p idb_get_def)
    with False Cons.IH tail show ?thesis by (simp add: p)
  qed
qed

section \<open>Ingestion and query\<close>

lemma find_filter: "find P (filter Q xs) = find (\<lambda>x. P x \<and> Q x) xs"
  by (induction xs) auto

lemma storeMessages_twice:
  assumes ok: "idb_store_ok (message_log d)"
    and new: "idb_get (message_log d) (timestamp msg) = None"
  shows "\<exists>d1. storeMessages [msg] d = Some ([True], d1) \<and>
              storeMessages [msg] d1 = Some ([False], d1) \<and>
              filter (\<lambda>(k, m). k = timestamp msg) (message_log d1) = [(timestamp msg, msg)]"
proof -
  define d1 where "d1 = d\<lparr>message_log := put_log (message_log d) [msg],
      message_latest := put_latest (message_latest d) (filter (wins (message_latest d)) [msg])\<rparr>"
  have first: "storeMessages [msg] d = Some ([True], d1)"
    using new by (simp add: storeMessages_rounds fresh_def d1_def)
  have log1: "message_log d1 = idb_put (timestamp msg) msg (message_log d)"
    by (simp add: d1_def put_log_def)
  have known: "idb_get (message_log d1) (timestamp msg) = Some msg"
    by (simp add: log1 idb_get_put)
  then have second: "storeMessages [msg] d1 = Some ([False], d1)"
    by (simp add: storeMessages_rounds fresh_def put_log_def put_latest_def)
  have "idb_store_ok (message_log d1)"
    using ok by (simp add: log1 idb_store_ok_put)
  then have "filter (\<lambda>(k, m). k = timestamp msg) (message_log d1) = [(timestamp msg, msg)]"
    using known by (rule one_record_per_key)
  with first second show ?thesis by blast
qed

lemma keyed_filter:
  "list_all (\<lambda>(k, msg). k = timestamp msg) s \<Longrightarrow>
   map snd (filter (\<lambda>(k, v). since \<le> k) s) = filter (\<lambda>msg. since \<le> timestamp msg) (map snd s)"
  by (induction s) auto

lemma keyed_timestamps:
  "list_all (\<lambda>(k, msg). k = timestamp msg) s \<Longrightarrow> map timestamp (map snd s) = map fst s"
  by (induction s) auto

text \<open>Any sequence of calls returns, and keeps the log a well-formed keyed store.\<close>

lemma storeMessages_seq_total: "\<exists>d'. storeMessages_seq batches d = Some d'"
  by (induction batches arbitrary: d) (simp_all add: storeMessages_rounds)

lemma log_ok_storeMessages_seq:
  "log_ok (message_log d) \<Longrightarrow> storeMessages_seq batches d = Some d' \<Longrightarrow> log_ok (message_log d')"
proof (induction batches arbitrary: d)
  case Nil
  then show ?case by simp
next
  case (Cons batch batches)
  from Cons.prems(2) obtain results d1 where first: "storeMessages batch d = Some (results, d1)"
    and rest: "storeMessages_seq batches d1 = Some d'"
    by (auto split: option.splits)
  from Cons.prems(1) first have "log_ok (message_log d1)" by (rule log_ok_storeMessages)
  then show ?case using rest by (rule Cons.IH)
qed

text \<open>
  A call whose fresh messages are for pairwise different cells keeps the latest index
  covering the log: the reads of the index that precede the writes of the same call then
  miss nothing.
\<close>

lemma find_Some_mem: "find P xs = Some x \<Longrightarrow> x \<in> set xs \<and> P x"
  by (induction xs) (auto split: if_splits)

lemma find_distinct_key:
  "distinct (map f xs) \<Longrightarrow> x \<in> set xs \<Longrightarrow> find (\<lambda>y. f y = f x) (rev xs) = Some x"
proof (induction xs)
  case Nil
  then show ?case by simp
next
  case (Cons a xs)
  show ?case
  proof (cases "x \<in> set xs")
    case True
    with Cons have "find (\<lambda>y. f y = f x) (rev xs) = Some x" by simp
    then show ?thesis by (simp add: find_snoc)
  next
    case False
    with Cons.prems have xa: "x = a" and notin: "f a \<notin> f ` set xs" by auto
    from notin have "\<forall>y \<in> set xs. f y \<noteq> f a" by (metis imageI)
    then have "find (\<lambda>y. f y = f x) (rev xs) = None"
      by (simp add: find_None_iff xa)
    then show ?thesis by (simp add: find_snoc xa)
  qed
qed

lemma list_all_idb_lookup:
  "idb_store_ok s \<Longrightarrow> list_all P s \<longleftrightarrow> (\<forall>k v. idb_get s k = Some v \<longrightarrow> P (k, v))"
proof -
  assume "idb_store_ok s"
  then have "distinct (map fst s)"
    by (simp add: idb_store_ok_def strict_sorted_iff)
  then have "(k, v) \<in> set s \<longleftrightarrow> idb_get s k = Some v" for k v
    by (simp add: idb_get_def)
  then show ?thesis by (auto simp: list_all_iff)
qed

lemma latest_covers_log_storeMessages:
  assumes log: "log_ok (message_log d)"
    and inv: "latest_covers_log d"
    and cells: "distinct (map latestMessageKey (filter (fresh (message_log d)) messages))"
    and res: "storeMessages messages d = Some (results, d')"
  shows "latest_covers_log d'"
proof -
  let ?new = "filter (fresh (message_log d)) messages"
  let ?winners = "filter (wins (message_latest d)) ?new"
  from res have d': "d' = d\<lparr>message_log := put_log (message_log d) ?new,
      message_latest := put_latest (message_latest d) ?winners\<rparr>"
    by (simp add: storeMessages_rounds)
  have ok: "idb_store_ok (message_log d)" and ok': "idb_store_ok (message_log d')"
    using log log_ok_storeMessages [OF log res] by (simp_all add: log_ok_def)
  have old: "idb_get (message_log d) k = Some m \<Longrightarrow>
      \<exists>e. idb_get (message_latest d) (latestMessageKey m) = Some e \<and> timestamp m \<le> timestamp e" for k m
  proof -
    assume m: "idb_get (message_log d) k = Some m"
    from inv have "\<forall>k v. idb_get (message_log d) k = Some v \<longrightarrow> covered (message_latest d) v"
      unfolding latest_covers_log_def by (simp add: list_all_idb_lookup [OF ok])
    with m have "covered (message_latest d) m" by blast
    then show ?thesis
      by (cases "idb_get (message_latest d) (latestMessageKey m)") (simp_all add: covered_def)
  qed
  have winners_keys: "distinct (map latestMessageKey ?winners)"
    using cells by (rule distinct_map_filter)
  have latest': "idb_get (message_latest d') key =
      (case find (\<lambda>m. latestMessageKey m = key) (rev ?winners) of
         Some m \<Rightarrow> Some m | None \<Rightarrow> idb_get (message_latest d) key)" for key
    by (simp add: d' idb_get_put_latest)
  have covered: "\<exists>e. idb_get (message_latest d') (latestMessageKey m) = Some e \<and> timestamp m \<le> timestamp e"
    if m: "idb_get (message_log d') k = Some m" for k m
  proof (cases "find (\<lambda>x. timestamp x = k) (rev ?new)")
    case None
    with m have "idb_get (message_log d) k = Some m"
      by (simp add: d' idb_get_put_log)
    from old [OF this] obtain e where e: "idb_get (message_latest d) (latestMessageKey m) = Some e"
      and le: "timestamp m \<le> timestamp e" by blast
    show ?thesis
    proof (cases "find (\<lambda>x. latestMessageKey x = latestMessageKey m) (rev ?winners)")
      case None
      with e le show ?thesis by (simp add: latest')
    next
      case (Some w)
      from find_Some_mem [OF Some] have "wins (message_latest d) w"
        and "latestMessageKey w = latestMessageKey m" by auto
      with e have "timestamp e < timestamp w" by (simp add: wins_def)
      with le Some show ?thesis by (simp add: latest')
    qed
  next
    case (Some x)
    with m have "x = m" by (simp add: d' idb_get_put_log)
    with find_Some_mem [OF Some] have new: "m \<in> set ?new" by simp
    show ?thesis
    proof (cases "wins (message_latest d) m")
      case True
      with new have "m \<in> set ?winners" by simp
      from find_distinct_key [OF winners_keys this]
      show ?thesis by (simp add: latest')
    next
      case False
      then obtain e where e: "idb_get (message_latest d) (latestMessageKey m) = Some e"
        and le: "timestamp m \<le> timestamp e"
        by (auto simp: wins_def split: option.splits)
      have "find (\<lambda>x. latestMessageKey x = latestMessageKey m) (rev ?winners) = None"
      proof (rule ccontr)
        assume "find (\<lambda>x. latestMessageKey x = latestMessageKey m) (rev ?winners) \<noteq> None"
        then obtain w where "find (\<lambda>x. latestMessageKey x = latestMessageKey m) (rev ?winners) = Some w"
          by auto
        from find_Some_mem [OF this] have w: "w \<in> set ?new" "wins (message_latest d) w"
          and key: "latestMessageKey w = latestMessageKey m" by auto
        from cells w(1) new key have "w = m"
          by (auto simp: distinct_map dest: inj_onD)
        with w(2) False show False by simp
      qed
      with e le show ?thesis by (simp add: latest')
    qed
  qed
  have "\<forall>k v. idb_get (message_log d') k = Some v \<longrightarrow> covered (message_latest d') v"
  proof (intro allI impI)
    fix k v assume "idb_get (message_log d') k = Some v"
    from covered [OF this] show "covered (message_latest d') v"
      by (auto simp: covered_def)
  qed
  then show ?thesis
    unfolding latest_covers_log_def by (simp add: list_all_idb_lookup [OF ok'])
qed

text \<open>
  C1. The claim: after any sequence of \<^verbatim>\<open>storeMessages\<close> calls the latest index holds,
  for a cell, a message whose timestamp is at least that of every message ingested for the
  cell, and an entry is overwritten only by a strictly greater timestamp.
  The code at a batch of two messages for one cell, the newer one first, on empty stores:
  both callbacks read the empty index before either writes it, both write, and the second
  write stands. Both messages are stored (results \<open>[True, True]\<close>, two log entries),
  and the index is left with the message of timestamp \<open>''1''\<close>, older than the ingested
  message of timestamp \<open>''2''\<close>: the index, which covered the log before the call, no
  longer does.
\<close>

theorem storeMessages_latest_keeps_older_message:
  "storeMessages
     [\<lparr>dataset = ''d'', row = ''r'', column = ''c'', msg_value = Num 1, timestamp = ''2''\<rparr>,
      \<lparr>dataset = ''d'', row = ''r'', column = ''c'', msg_value = Num 2, timestamp = ''1''\<rparr>]
     empty_idb =
   Some ([True, True],
     \<lparr>message_log =
        [(''1'', \<lparr>dataset = ''d'', row = ''r'', column = ''c'', msg_value = Num 2, timestamp = ''1''\<rparr>),
         (''2'', \<lparr>dataset = ''d'', row = ''r'', column = ''c'', msg_value = Num 1, timestamp = ''2''\<rparr>)],
      message_latest =
        [(''d:r:c'', \<lparr>dataset = ''d'', row = ''r'', column = ''c'', msg_value = Num 2, timestamp = ''1''\<rparr>)],
      message_meta = []\<rparr>)
   \<and> (''1'' :: string) < ''2''
   \<and> latest_covers_log empty_idb
   \<and> \<not> latest_covers_log
     \<lparr>message_log =
        [(''1'', \<lparr>dataset = ''d'', row = ''r'', column = ''c'', msg_value = Num 2, timestamp = ''1''\<rparr>),
         (''2'', \<lparr>dataset = ''d'', row = ''r'', column = ''c'', msg_value = Num 1, timestamp = ''2''\<rparr>)],
      message_latest =
        [(''d:r:c'', \<lparr>dataset = ''d'', row = ''r'', column = ''c'', msg_value = Num 2, timestamp = ''1''\<rparr>)],
      message_meta = []\<rparr>"
  by (simp add: storeMessages_rounds fresh_def wins_def put_log_def put_latest_def idb_get_def
        latestMessageKey_def empty_idb_def latest_covers_log_def covered_def)

text \<open>
  What one call does, measured against the log as it was when the call was made. The
  result list gives, in input order, whether each message's timestamp was absent from
  that log; the messages whose timestamp it held leave no trace in either store; the log
  afterwards holds, under a timestamp it did not hold, the last message of the batch
  with that timestamp, and its old records otherwise. Two successive calls with one
  fresh message return \<open>[True]\<close>, then \<open>[False]\<close> with the stores unchanged, and leave
  one record under the timestamp.
\<close>

lemma storeMessages_call_time_results:
  assumes ok: "idb_store_ok (message_log d)"
  shows "\<exists>d'.
     storeMessages messages d =
       Some (map (\<lambda>m. idb_get (message_log d) (timestamp m) = None) messages, d') \<and>
     storeMessages (filter (\<lambda>m. idb_get (message_log d) (timestamp m) = None) messages) d =
       Some (map (\<lambda>m. True) (filter (\<lambda>m. idb_get (message_log d) (timestamp m) = None) messages), d') \<and>
     (\<forall>k. idb_get (message_log d') k =
        (case find (\<lambda>m. timestamp m = k \<and> idb_get (message_log d) k = None) (rev messages) of
           Some m \<Rightarrow> Some m
         | None \<Rightarrow> idb_get (message_log d) k)) \<and>
     (idb_get (message_log d) (timestamp msg) = None \<longrightarrow>
        (\<exists>d1. storeMessages [msg] d = Some ([True], d1) \<and>
              storeMessages [msg] d1 = Some ([False], d1) \<and>
              filter (\<lambda>(k, m). k = timestamp msg) (message_log d1) = [(timestamp msg, msg)]))"
proof -
  let ?new = "filter (fresh (message_log d)) messages"
  define d' where "d' = d\<lparr>message_log := put_log (message_log d) ?new,
      message_latest := put_latest (message_latest d) (filter (wins (message_latest d)) ?new)\<rparr>"
  have fresh_eq: "fresh (message_log d) = (\<lambda>m. idb_get (message_log d) (timestamp m) = None)"
    by (simp add: fresh_def fun_eq_iff)
  have all: "storeMessages messages d = Some (map (fresh (message_log d)) messages, d')"
    by (simp only: storeMessages_rounds d'_def)
  have "map (fresh (message_log d)) ?new = map (\<lambda>m. True) ?new"
    by simp
  then have only_new: "storeMessages ?new d = Some (map (\<lambda>m. True) ?new, d')"
    by (simp only: storeMessages_rounds d'_def filter_filter conj_absorb)
  have log: "idb_get (message_log d') k =
        (case find (\<lambda>m. timestamp m = k \<and> idb_get (message_log d) k = None) (rev messages) of
           Some m \<Rightarrow> Some m
         | None \<Rightarrow> idb_get (message_log d) k)" for k
  proof -
    have "find (\<lambda>m. timestamp m = k) (rev ?new) =
          find (\<lambda>m. timestamp m = k \<and> fresh (message_log d) m) (rev messages)"
      by (simp only: rev_filter find_filter)
    also have "\<dots> = find (\<lambda>m. timestamp m = k \<and> idb_get (message_log d) k = None) (rev messages)"
      by (rule find_cong) (auto simp: fresh_def)
    finally show ?thesis
      by (simp add: d'_def idb_get_put_log)
  qed
  have twice: "idb_get (message_log d) (timestamp msg) = None \<longrightarrow>
        (\<exists>d1. storeMessages [msg] d = Some ([True], d1) \<and>
              storeMessages [msg] d1 = Some ([False], d1) \<and>
              filter (\<lambda>(k, m). k = timestamp msg) (message_log d1) = [(timestamp msg, msg)])"
    using storeMessages_twice [OF ok, of msg] by blast
  from all only_new have
    "storeMessages messages d =
       Some (map (\<lambda>m. idb_get (message_log d) (timestamp m) = None) messages, d') \<and>
     storeMessages (filter (\<lambda>m. idb_get (message_log d) (timestamp m) = None) messages) d =
       Some (map (\<lambda>m. True) (filter (\<lambda>m. idb_get (message_log d) (timestamp m) = None) messages), d')"
    unfolding fresh_eq by simp
  with log twice show ?thesis
    by (intro exI [of _ d']) simp
qed

text \<open>
  C2. The claim: within a batch, a message whose timestamp is already in the log is
  skipped, with result \<open>False\<close> and no change to the log or the latest index, and a
  message with a fresh timestamp is inserted, with result \<open>True\<close>.
  The code at a batch that repeats a timestamp, on empty stores: every callback reads the
  log before any callback writes to it, so the second message is not recognised although
  the first has been put by the time the second is. For the same message twice the
  results are \<open>[True, True]\<close> and the message is put twice. For two messages of one
  timestamp and different rows the results are \<open>[True, True]\<close>, the second put
  replaces the log record of the first in place, and the latest index is written for both
  cells, so it keeps an entry for a message the log no longer holds.
\<close>

theorem storeMessages_repeated_timestamp_not_skipped:
  "storeMessages
     [\<lparr>dataset = ''d'', row = ''r'', column = ''c'', msg_value = Num 1, timestamp = ''1''\<rparr>,
      \<lparr>dataset = ''d'', row = ''r'', column = ''c'', msg_value = Num 1, timestamp = ''1''\<rparr>]
     empty_idb =
   Some ([True, True],
     \<lparr>message_log =
        [(''1'', \<lparr>dataset = ''d'', row = ''r'', column = ''c'', msg_value = Num 1, timestamp = ''1''\<rparr>)],
      message_latest =
        [(''d:r:c'', \<lparr>dataset = ''d'', row = ''r'', column = ''c'', msg_value = Num 1, timestamp = ''1''\<rparr>)],
      message_meta = []\<rparr>)
   \<and> storeMessages
     [\<lparr>dataset = ''d'', row = ''r'', column = ''c'', msg_value = Num 1, timestamp = ''1''\<rparr>,
      \<lparr>dataset = ''d'', row = ''q'', column = ''c'', msg_value = Num 2, timestamp = ''1''\<rparr>]
     empty_idb =
   Some ([True, True],
     \<lparr>message_log =
        [(''1'', \<lparr>dataset = ''d'', row = ''q'', column = ''c'', msg_value = Num 2, timestamp = ''1''\<rparr>)],
      message_latest =
        [(''d:q:c'', \<lparr>dataset = ''d'', row = ''q'', column = ''c'', msg_value = Num 2, timestamp = ''1''\<rparr>),
         (''d:r:c'', \<lparr>dataset = ''d'', row = ''r'', column = ''c'', msg_value = Num 1, timestamp = ''1''\<rparr>)],
      message_meta = []\<rparr>)"
  by (simp add: storeMessages_rounds fresh_def wins_def put_log_def put_latest_def idb_get_def
        latestMessageKey_def empty_idb_def)

text \<open>
  C5. For every cursor string \<open>since\<close> and every log (a store of the engine whose records
  sit under their timestamps), \<^verbatim>\<open>queryMessages(since)\<close> returns exactly the log's
  messages whose timestamp is at least \<open>since\<close> (the bound is inclusive), each once, in
  strictly descending order of timestamp.
\<close>

theorem queryMessages_since_descending:
  assumes ok: "log_ok (message_log d)"
  shows "queryMessages since d =
           rev (filter (\<lambda>msg. since \<le> timestamp msg) (map snd (message_log d)))
       \<and> set (queryMessages since d) =
           {msg. msg \<in> snd ` set (message_log d) \<and> since \<le> timestamp msg}
       \<and> sorted_wrt (\<lambda>a b. timestamp b < timestamp a) (queryMessages since d)"
proof -
  from ok have keyed: "list_all (\<lambda>(k, msg). k = timestamp msg) (message_log d)"
    and sorted: "sorted_wrt (<) (map fst (message_log d))"
    by (simp_all add: log_ok_def idb_store_ok_def)
  have eq: "queryMessages since d =
      rev (filter (\<lambda>msg. since \<le> timestamp msg) (map snd (message_log d)))"
    by (simp add: queryMessages_def idb_openCursor_def IDBKeyRange_lowerBound_def in_range_def
          drain_cursor_append keyed_filter [OF keyed])
  from sorted have "sorted_wrt (<) (map timestamp (map snd (message_log d)))"
    by (simp only: keyed_timestamps [OF keyed])
  then have "sorted_wrt (\<lambda>a b. timestamp a < timestamp b) (map snd (message_log d))"
    by (simp only: sorted_wrt_map)
  then have "sorted_wrt (\<lambda>a b. timestamp a < timestamp b)
      (filter (\<lambda>msg. since \<le> timestamp msg) (map snd (message_log d)))"
    by (rule sorted_wrt_filter)
  then have desc: "sorted_wrt (\<lambda>a b. timestamp b < timestamp a) (queryMessages since d)"
    by (simp only: eq sorted_wrt_rev)
  have "set (queryMessages since d) =
      {msg. msg \<in> snd ` set (message_log d) \<and> since \<le> timestamp msg}"
    by (auto simp: eq)
  with eq desc show ?thesis by simp
qed

theorem queryMessages_since_descending_witness:
  "log_ok (message_log
     \<lparr>message_log =
        [(''1'', \<lparr>dataset = ''d'', row = ''r'', column = ''c'', msg_value = Num 1, timestamp = ''1''\<rparr>),
         (''2'', \<lparr>dataset = ''d'', row = ''r'', column = ''c'', msg_value = Num 2, timestamp = ''2''\<rparr>),
         (''3'', \<lparr>dataset = ''d'', row = ''q'', column = ''c'', msg_value = Num 3, timestamp = ''3''\<rparr>)],
      message_latest = [], message_meta = []\<rparr>)
   \<and> queryMessages ''2''
     \<lparr>message_log =
        [(''1'', \<lparr>dataset = ''d'', row = ''r'', column = ''c'', msg_value = Num 1, timestamp = ''1''\<rparr>),
         (''2'', \<lparr>dataset = ''d'', row = ''r'', column = ''c'', msg_value = Num 2, timestamp = ''2''\<rparr>),
         (''3'', \<lparr>dataset = ''d'', row = ''q'', column = ''c'', msg_value = Num 3, timestamp = ''3''\<rparr>)],
      message_latest = [], message_meta = []\<rparr> =
     [\<lparr>dataset = ''d'', row = ''q'', column = ''c'', msg_value = Num 3, timestamp = ''3''\<rparr>,
      \<lparr>dataset = ''d'', row = ''r'', column = ''c'', msg_value = Num 2, timestamp = ''2''\<rparr>]"
proof -
  let ?d = "\<lparr>message_log =
        [(''1'', \<lparr>dataset = ''d'', row = ''r'', column = ''c'', msg_value = Num 1, timestamp = ''1''\<rparr>),
         (''2'', \<lparr>dataset = ''d'', row = ''r'', column = ''c'', msg_value = Num 2, timestamp = ''2''\<rparr>),
         (''3'', \<lparr>dataset = ''d'', row = ''q'', column = ''c'', msg_value = Num 3, timestamp = ''3''\<rparr>)],
      message_latest = [], message_meta = []\<rparr>"
  have ok: "log_ok (message_log ?d)"
    by (simp add: log_ok_def idb_store_ok_def)
  from queryMessages_since_descending [OF ok, of "''2''"]
  have "queryMessages ''2'' ?d = rev (filter (\<lambda>msg. ''2'' \<le> timestamp msg) (map snd (message_log ?d)))"
    by blast
  then show ?thesis using ok by simp
qed

section \<open>Plain objects: lookups after an assignment\<close>

lemma map_of_obj_set: "map_of (obj_set k v props) k' = (if k' = k then Some v else map_of props k')"
  by (simp add: obj_set_def update_conv')


lemma obj_set_keys: "fst ` set (obj_set k v props) = insert k (fst ` set props)"
  by (simp add: obj_set_def dom_update)

lemma list_all_obj_set:
  "list_all P props \<Longrightarrow> P (k, v) \<Longrightarrow> list_all P (obj_set k v props)"
  unfolding obj_set_def by (induction props) auto

lemma list_all_map_of:
  "list_all P props \<Longrightarrow> map_of props k = Some v \<Longrightarrow> P (k, v)"
  by (induction props) (auto split: if_splits)

section \<open>Change notification\<close>






section \<open>The accessors\<close>





lemma mem_send: "mem (send batch st) = mem st"
  by (simp add: send_def)


lemmas store_eval =
  DatasetProxy_set_def DatasetProxy_set_send_def DatasetProxy_set_assign_def
  DatasetProxy_deleteProperty_def DatasetProxy_has_def DatasetProxy_get_def DatasetProxy_ownKeys_def
  structuredClone_def empty_store_def send_def getDataset_def mem_row_def
  obj_set_def obj_has_def obj_get_def obj_keys_def changed_messages_def dropped_messages_def Let_def









lemma getDataset_existing:
  "(case map_of (fst (getDataset ds st)) rid of None \<Rightarrow> [] | Some r \<Rightarrow> r) =
   (case mem_row st ds rid of None \<Rightarrow> [] | Some r \<Rightarrow> r)"
  by (simp add: getDataset_def mem_row_def split: option.splits)

lemma DatasetProxy_set_send_eq:
  "DatasetProxy_set_send ds rid val st =
     send (changed_messages ds rid (case mem_row st ds rid of None \<Rightarrow> [] | Some r \<Rightarrow> r) val @
           dropped_messages ds rid (case mem_row st ds rid of None \<Rightarrow> [] | Some r \<Rightarrow> r) val)
          (snd (getDataset ds st))"
  by (simp add: DatasetProxy_set_send_def case_prod_beta Let_def getDataset_existing)












text \<open>
  C7. In every state, assigning to a property of the root, deleting a property of the
  root, and \<^verbatim>\<open>defineProperty\<close> on the root, on a dataset and on a row each raise a
  \<^verbatim>\<open>TypeError\<close> whose text names the level (\<open>DB\<close>, the dataset, the dataset and the
  row id), and leave the state (the mirror and the batches sent) as it was.
\<close>

theorem forbidden_operations_throw:
  "DBProxy_set ds v st = (Inl (TypeError ''cannot set on DB''), st)
   \<and> DBProxy_deleteProperty ds st = (Inl (TypeError ''cannot delete on DB''), st)
   \<and> DBProxy_defineProperty ds desc st = (Inl (TypeError ''cannot defineProperty on DB''), st)
   \<and> DatasetProxy_defineProperty ds rid desc st =
       (Inl (TypeError (''cannot defineProperty on dataset \"'' @ ds @ ''\"'')), st)
   \<and> RowProxy_defineProperty ds rid prop desc st =
       (Inl (TypeError (''cannot defineProperty on dataset \"'' @ ds @ ''\" with row id '' @ rid)), st)"
  by (simp add: DBProxy_set_def DBProxy_deleteProperty_def DBProxy_defineProperty_def
        DatasetProxy_defineProperty_def RowProxy_defineProperty_def)

subsection \<open>The id invariant\<close>

text \<open>
  The writes that keep every row's \<open>id\<close> column equal to its row key: a dataset-level
  write, a row-level write to a column other than \<open>id\<close>, the delete of a row that
  exists, and the load of an index without a diverging \<open>id\<close> message.
\<close>

lemma mirror_ids_ok_rows: "mirror_ids_ok m = list_all (\<lambda>(ds, d). rows_ok d) m"
  by (simp add: mirror_ids_ok_def rows_ok_def)

lemma rows_ok_lookup: "mirror_ids_ok m \<Longrightarrow> rows_ok (case map_of m ds of None \<Rightarrow> [] | Some d \<Rightarrow> d)"
proof (cases "map_of m ds")
  case None
  then show ?thesis by (simp add: rows_ok_def)
next
  case (Some d)
  assume "mirror_ids_ok m"
  then have "list_all (\<lambda>(ds, d). rows_ok d) m" by (simp only: mirror_ids_ok_rows)
  from list_all_map_of [OF this Some] show ?thesis by (simp add: Some)
qed

lemma rows_ok_set_row:
  "rows_ok d \<Longrightarrow> map_of r ''id'' = Some (Str rid) \<Longrightarrow> rows_ok (obj_set rid r d)"
  unfolding rows_ok_def by (rule list_all_obj_set) simp_all

lemma mirror_ids_ok_set_dataset:
  "mirror_ids_ok m \<Longrightarrow> rows_ok d \<Longrightarrow> mirror_ids_ok (obj_set ds d m)"
  unfolding mirror_ids_ok_rows by (rule list_all_obj_set) simp_all

lemma mirror_ids_ok_set_row:
  assumes "mirror_ids_ok m" and "map_of r ''id'' = Some (Str rid)"
  shows "mirror_ids_ok (obj_set ds (obj_set rid r (case map_of m ds of None \<Rightarrow> [] | Some d \<Rightarrow> d)) m)"
  using assms by (intro mirror_ids_ok_set_dataset rows_ok_set_row rows_ok_lookup)

lemma row_id_lookup:
  "mirror_ids_ok m \<Longrightarrow> map_of m ds = Some d \<Longrightarrow> map_of d rid = Some r \<Longrightarrow>
   map_of r ''id'' = Some (Str rid)"
proof -
  assume ok: "mirror_ids_ok m" and d: "map_of m ds = Some d" and r: "map_of d rid = Some r"
  from rows_ok_lookup [OF ok, of ds] d have "rows_ok d" by simp
  then have "list_all (\<lambda>(rid, r). map_of r ''id'' = Some (Str rid)) d" by (simp only: rows_ok_def)
  from list_all_map_of [OF this r] show ?thesis by simp
qed

lemma mirror_ids_ok_DatasetProxy_set:
  assumes ok: "mirror_ids_ok (mem st)"
    and res: "DatasetProxy_set ds rid v st = (Inr True, st')"
  shows "mirror_ids_ok (mem st')"
proof -
  have getDataset_ok: "mirror_ids_ok (mem (snd (getDataset ds st)))"
    using ok by (auto simp: getDataset_def rows_ok_def intro: mirror_ids_ok_set_dataset split: option.splits)
  have send_ok: "mirror_ids_ok (mem (DatasetProxy_set_send ds rid val st))" for val
    using getDataset_ok by (simp add: DatasetProxy_set_send_eq mem_send)
  have assign_ok: "mirror_ids_ok (mem (DatasetProxy_set_assign ds rid val (DatasetProxy_set_send ds rid val st)))"
    if "map_of val ''id'' = Some (Str rid)" for val
    using mirror_ids_ok_set_row [where ds = ds, OF send_ok that]
    by (simp add: DatasetProxy_set_assign_def Let_def)
  from res show ?thesis
    by (auto simp: DatasetProxy_set_def structuredClone_def Let_def obj_has_def obj_get_def
          map_of_obj_set intro!: assign_ok split: if_splits sum.splits jsval.splits option.splits)
qed

lemma mirror_ids_ok_RowProxy_set:
  assumes ok: "mirror_ids_ok (mem st)"
    and col: "prop \<noteq> ''id'' \<or> v = Str rid"
  shows "mirror_ids_ok (mem (snd (RowProxy_set ds rid prop v st)))"
proof -
  let ?d = "case map_of (mem st) ds of None \<Rightarrow> [] | Some d \<Rightarrow> d"
  let ?r = "case map_of ?d rid of None \<Rightarrow> [(''id'', Str rid)] | Some r \<Rightarrow> r"
  have "map_of ?r ''id'' = Some (Str rid)"
  proof (cases "map_of ?d rid")
    case None
    then show ?thesis by simp
  next
    case (Some r)
    then show ?thesis
      using ok by (cases "map_of (mem st) ds") (auto dest: row_id_lookup)
  qed
  with col have "map_of (obj_set prop v ?r) ''id'' = Some (Str rid)"
    by (auto simp: map_of_obj_set)
  from mirror_ids_ok_set_row [where ds = ds, OF ok this]
  show ?thesis by (simp add: RowProxy_set_def Let_def mem_send)
qed

lemma mirror_ids_ok_DatasetProxy_deleteProperty:
  assumes ok: "mirror_ids_ok (mem st)"
    and row: "mem_row st ds rid = Some r"
  shows "mirror_ids_ok (mem (snd (DatasetProxy_deleteProperty ds rid st)))"
proof -
  from row obtain d where d: "map_of (mem st) ds = Some d" and r: "map_of d rid = Some r"
    by (auto simp: mem_row_def split: option.splits)
  from row_id_lookup [OF ok d r] have "map_of (obj_set ''tombstone'' (Bool True) r) ''id'' = Some (Str rid)"
    by (simp add: map_of_obj_set)
  from mirror_ids_ok_set_row [where ds = ds, OF ok this]
  show ?thesis
    by (simp add: DatasetProxy_deleteProperty_def Let_def getDataset_def send_def d r obj_has_def)
qed

lemma mirror_ids_ok_loadDatasetMem_step:
  assumes ok: "mirror_ids_ok m"
    and col: "column msg \<noteq> ''id'' \<or> msg_value msg = Str (row msg)"
  shows "mirror_ids_ok (loadDatasetMem_step m msg)"
proof -
  let ?d = "case map_of m (dataset msg) of None \<Rightarrow> [] | Some d \<Rightarrow> d"
  let ?r = "case map_of ?d (row msg) of None \<Rightarrow> [(''id'', Str (row msg))] | Some r \<Rightarrow> r"
  have "map_of ?r ''id'' = Some (Str (row msg))"
  proof (cases "map_of ?d (row msg)")
    case None
    then show ?thesis by simp
  next
    case (Some r)
    then show ?thesis
      using ok by (cases "map_of m (dataset msg)") (auto dest: row_id_lookup)
  qed
  with col have "map_of (obj_set (column msg) (msg_value msg) ?r) ''id'' = Some (Str (row msg))"
    by (auto simp: map_of_obj_set)
  from mirror_ids_ok_set_row [where ds = "dataset msg", OF ok this]
  show ?thesis by (simp add: loadDatasetMem_step_def Let_def)
qed

lemma mirror_ids_ok_loadDatasetMem:
  assumes ok: "mirror_ids_ok m"
    and cols: "list_all (\<lambda>(k, msg). column msg \<noteq> ''id'' \<or> msg_value msg = Str (row msg)) (message_latest d)"
  shows "mirror_ids_ok (loadDatasetMem m d)"
proof -
  have "mirror_ids_ok m \<Longrightarrow>
        list_all (\<lambda>msg. column msg \<noteq> ''id'' \<or> msg_value msg = Str (row msg)) msgs \<Longrightarrow>
        mirror_ids_ok (foldl loadDatasetMem_step m msgs)" for msgs
    by (induction msgs arbitrary: m) (simp_all add: mirror_ids_ok_loadDatasetMem_step)
  moreover from cols have "list_all (\<lambda>msg. column msg \<noteq> ''id'' \<or> msg_value msg = Str (row msg))
      (idb_getAll (message_latest d))"
    by (simp add: idb_getAll_def list_all_iff case_prod_beta)
  ultimately show ?thesis using ok by (simp add: loadDatasetMem_def)
qed

text \<open>
  C8. The claim: every row of the mirror carries an \<open>id\<close> column equal to its row key, and
  every operation that changes the mirror keeps it so.
  The code at \<^verbatim>\<open>delete db.jedi.yoda\<close> on a fresh store (the mirror is empty and satisfies
  the invariant): the row does not exist, so the delete creates it as
  \<^verbatim>\<open>{ tombstone: true }\<close>, without an \<open>id\<close> column. The other places that create a row
  (\<^verbatim>\<open>RowProxy.set\<close>, \<^verbatim>\<open>loadDatasetMem\<close>, \<^verbatim>\<open>syncDatasetMem\<close>) create it with its id.
\<close>

theorem DatasetProxy_deleteProperty_row_without_id:
  "snd (DatasetProxy_deleteProperty ''jedi'' ''yoda'' empty_store) =
     \<lparr>mem = [(''jedi'', [(''yoda'', [(''tombstone'', Bool True)])])],
      sent = [[\<lparr>dataset = ''jedi'', row = ''yoda'', column = ''tombstone'', msg_value = Bool True\<rparr>]]\<rparr>
   \<and> mirror_ids_ok (mem empty_store)
   \<and> \<not> mirror_ids_ok (mem (snd (DatasetProxy_deleteProperty ''jedi'' ''yoda'' empty_store)))"
  by (simp add: DatasetProxy_deleteProperty_def empty_store_def send_def getDataset_def obj_set_def
        obj_has_def mirror_ids_ok_def Let_def)

subsection \<open>Enumerating a row\<close>

text \<open>
  On a row of primitive values the enumeration yields the columns whose value is truthy.
\<close>

lemma enumerable_own_keys_primitive:
  assumes row: "mem_row st ds rid = Some r"
  shows "list_all (\<lambda>k. isPrimitive (obj_get r k)) ks \<Longrightarrow>
     enumerable_own_keys (\<lambda>k. RowProxy_getOwnPropertyDescriptor ds rid k st) ks =
       Inr (filter (\<lambda>k. truthy (obj_get r k)) ks)"
  by (induction ks) (simp_all add: RowProxy_getOwnPropertyDescriptor_def RowProxy_get_def row Let_def)

lemma RowProxy_enumerate_primitive:
  assumes row: "mem_row st ds rid = Some r"
    and prim: "list_all (\<lambda>k. isPrimitive (obj_get r k)) (obj_keys r)"
  shows "RowProxy_enumerate ds rid st = Inr (filter (\<lambda>k. truthy (obj_get r k)) (obj_keys r))"
  using enumerable_own_keys_primitive [OF row prim]
  by (simp add: RowProxy_enumerate_def RowProxy_ownKeys_def row)

text \<open>
  C9. The claim: enumerating an existing row through the accessor yields exactly the row's
  own column names, whatever the columns' values.
  The code on the row written by \<^verbatim>\<open>db.jedi.yoda = {name:'yoda', age:0}\<close>: the row has the
  columns \<open>name\<close>, \<open>age\<close>, \<open>id\<close>; the \<^verbatim>\<open>ownKeys\<close> trap lists all three and the
  \<^verbatim>\<open>has\<close> trap finds \<open>age\<close>, but \<^verbatim>\<open>getOwnPropertyDescriptor\<close> tests the column's value
  for truthiness and returns no descriptor for the value \<open>0\<close>, so the enumeration yields
  \<open>name\<close> and \<open>id\<close> only.
\<close>

theorem RowProxy_enumerate_omits_falsy_column:
  "mem (snd (DatasetProxy_set ''jedi'' ''yoda'' (Obj [(''name'', Str ''yoda''), (''age'', Num 0)]) empty_store)) =
     [(''jedi'', [(''yoda'', [(''name'', Str ''yoda''), (''age'', Num 0), (''id'', Str ''yoda'')])])]
   \<and> RowProxy_ownKeys ''jedi'' ''yoda''
        (snd (DatasetProxy_set ''jedi'' ''yoda'' (Obj [(''name'', Str ''yoda''), (''age'', Num 0)]) empty_store)) =
       [''name'', ''age'', ''id'']
   \<and> RowProxy_has ''jedi'' ''yoda'' ''age''
        (snd (DatasetProxy_set ''jedi'' ''yoda'' (Obj [(''name'', Str ''yoda''), (''age'', Num 0)]) empty_store))
   \<and> RowProxy_getOwnPropertyDescriptor ''jedi'' ''yoda'' ''age''
        (snd (DatasetProxy_set ''jedi'' ''yoda'' (Obj [(''name'', Str ''yoda''), (''age'', Num 0)]) empty_store)) =
       Inr None
   \<and> RowProxy_enumerate ''jedi'' ''yoda''
        (snd (DatasetProxy_set ''jedi'' ''yoda'' (Obj [(''name'', Str ''yoda''), (''age'', Num 0)]) empty_store)) =
       Inr [''name'', ''id'']"
  by (simp add: store_eval RowProxy_ownKeys_def RowProxy_has_def RowProxy_getOwnPropertyDescriptor_def
        RowProxy_get_def RowProxy_enumerate_def isPrimitive_def)


end
